theory Spec2Isabelle
  imports Complex_Main
begin

section \<open>Election and reserve-duty analysis: the data model\<close>

text \<open>
  The script \<^verbatim>\<open>main_script.py\<close> is one linear pandas pipeline over a table
  \<^verbatim>\<open>data\<close> (votes left-joined with reserve days, one row per locality). The model
  starts from that joined table and follows the script statement by statement.

  A cell is a float64 or the missing marker NaN. Finite numbers are modelled by exact
  reals (the rounding of float64 arithmetic is not modelled), NaN by \<open>None\<close>.
\<close>

type_synonym cell = "real option"

text \<open>
  The party columns. The source keys them by Hebrew ballot letters; the constructors carry
  the display names the dictionaries \<^verbatim>\<open>coalition\<close> and \<^verbatim>\<open>opposition\<close> give them, and
  \<open>saar\<close> is the one ASCII key (display name "New Hope").
\<close>

datatype party =
    The_Union | Shas | United_Torah_Judaism | Religious_Zionism | Bait_Yehudi | saar
  | There_Is_Future | The_Kingdom_Camp | Israel_Is_Our_Home | United_Arab_List
  | Hadash_Taal | The_Work | Meretz

text \<open>The loop variable \<^verbatim>\<open>party\<close> of the script ranges over the two blocs.\<close>

datatype bloc = coal | opp

text \<open>
  Column names. \<open>votes p\<close> is the vote column of party \<open>p\<close>, \<open>valid_votes\<close> the column of
  valid ballots of the vote table, \<open>total b\<close> the columns \<^verbatim>\<open>'coal'\<close> and \<^verbatim>\<open>'opp'\<close>;
  the constructors with a bloc argument are the names the script builds as
  \<^verbatim>\<open>party + '_ratio'\<close>, \<^verbatim>\<open>party + '_cut'\<close> and so on. \<open>other\<close> is any further column
  of the input files.
\<close>

datatype column =
    votes party
  | valid_votes
  | reserve_days
  | total bloc
  | kosher
  | reserves_ratio bloc
  | ratio bloc
  | reserves_times_ratio bloc
  | cut bloc
  | reserves bloc
  | votes_cumsum bloc
  | other string

type_synonym row = "column \<Rightarrow> cell"

text \<open>
  A DataFrame: the list of its column names and its rows in order, each with its index
  key (the locality name). A row gives a cell for every column name; only the cells of
  the columns listed in \<open>columns\<close> are part of the table.
\<close>

record frame =
  columns :: "column list"
  rows :: "(string \<times> row) list"

datatype pd_error = KeyError_column column | KeyError_label real

subsection \<open>Element-wise arithmetic on cells\<close>

text \<open>
  NaN propagates through the element-wise operators. A division by zero gives an
  infinity or NaN in numpy, never an exception; it is modelled as \<open>None\<close>.
\<close>

fun padd :: "cell \<Rightarrow> cell \<Rightarrow> cell" where
  "padd (Some a) (Some b) = Some (a + b)"
| "padd _ _ = None"

fun psub :: "cell \<Rightarrow> cell \<Rightarrow> cell" where
  "psub (Some a) (Some b) = Some (a - b)"
| "psub _ _ = None"

fun pmul :: "cell \<Rightarrow> cell \<Rightarrow> cell" where
  "pmul (Some a) (Some b) = Some (a * b)"
| "pmul _ _ = None"

fun pdiv :: "cell \<Rightarrow> cell \<Rightarrow> cell" where
  "pdiv (Some a) (Some b) = (if b = 0 then None else Some (a / b))"
| "pdiv _ _ = None"

text \<open>\<^verbatim>\<open>DataFrame.sum(axis=1)\<close> skips NaN and gives 0 for a row of NaN only.\<close>

definition nansum :: "cell list \<Rightarrow> cell" where
  "nansum cs = Some (sum_list (map (\<lambda>c. case c of None \<Rightarrow> 0 | Some v \<Rightarrow> v) cs))"

subsection \<open>Binning: \<^verbatim>\<open>np.arange\<close>, \<^verbatim>\<open>np.round\<close> and \<^verbatim>\<open>pd.cut\<close>\<close>

definition arange :: "real \<Rightarrow> real \<Rightarrow> real \<Rightarrow> real list" where
  "arange start stop step =
     map (\<lambda>i. start + real i * step) [0 ..< nat \<lceil>(stop - start) / step\<rceil>]"

text \<open>Round half to even, as \<^verbatim>\<open>np.rint\<close> does.\<close>

definition rint :: "real \<Rightarrow> int" where
  "rint x = (let f = \<lfloor>x\<rfloor> in
     if x - of_int f < 1 / 2 then f
     else if 1 / 2 < x - of_int f then f + 1
     else if even f then f else f + 1)"

definition np_round :: "real \<Rightarrow> nat \<Rightarrow> real" where
  "np_round x decimals = of_int (rint (x * 10 ^ decimals)) / 10 ^ decimals"

definition cut_bins :: "real list" where
  "cut_bins = arange 0 (105 / 100) (5 / 100)"

definition cut_labels :: "real list" where
  "cut_labels = map (\<lambda>x. np_round x 2) (arange 0 1 (5 / 100))"

text \<open>
  \<^verbatim>\<open>searchsorted(side='left')\<close> on increasing edges: the number of edges strictly below
  the value.
\<close>

definition searchsorted_left :: "real list \<Rightarrow> real \<Rightarrow> nat" where
  "searchsorted_left bins x = length (takeWhile (\<lambda>b. b < x) bins)"

text \<open>
  \<^verbatim>\<open>pd.cut(x, bins, labels)\<close> with its defaults \<^verbatim>\<open>right=True\<close> and
  \<^verbatim>\<open>include_lowest=False\<close>: the edges are searched from the left, a value at or below
  the first edge or above the last one gets NaN, and any other value gets the label of
  the interval \<open>(bins[i-1], bins[i]]\<close> it lies in.
\<close>

definition pd_cut :: "real list \<Rightarrow> real list \<Rightarrow> cell \<Rightarrow> cell" where
  "pd_cut bins labels x =
     (case x of
        None \<Rightarrow> None
      | Some v \<Rightarrow>
          (let ids = searchsorted_left bins v in
           if ids = length bins \<or> ids = 0 then None else Some (labels ! (ids - 1))))"

subsection \<open>Frames, column access and errors\<close>

text \<open>
  Reading a column that the frame does not have raises \<^verbatim>\<open>KeyError\<close>; so does
  \<^verbatim>\<open>.loc\<close> at a label the index does not have. A statement of the script is modelled
  as \<open>reading cs df v\<close>: the error of the first missing column among those it reads, or
  its value \<open>v\<close>.
\<close>

definition then_do :: "pd_error + 'a \<Rightarrow> ('a \<Rightarrow> pd_error + 'b) \<Rightarrow> pd_error + 'b" where
  "then_do m f = (case m of Inl e \<Rightarrow> Inl e | Inr x \<Rightarrow> f x)"

definition reading :: "column list \<Rightarrow> frame \<Rightarrow> 'a \<Rightarrow> pd_error + 'a" where
  "reading cs df v =
     (case find (\<lambda>c. c \<notin> set (columns df)) cs of
        Some c \<Rightarrow> Inl (KeyError_column c)
      | None \<Rightarrow> Inr v)"

text \<open>
  \<^verbatim>\<open>df[c] = <expression over the columns of df>\<close>: the expression is evaluated row by
  row; a new column is appended, an existing one overwritten.
\<close>

definition setitem :: "column \<Rightarrow> (row \<Rightarrow> cell) \<Rightarrow> frame \<Rightarrow> frame" where
  "setitem c f df =
     \<lparr>columns = (if c \<in> set (columns df) then columns df else columns df @ [c]),
      rows = map (\<lambda>(k, rw). (k, rw(c := f rw))) (rows df)\<rparr>"

text \<open>
  \<^verbatim>\<open>df[c] = s\<close> for a Series \<open>s\<close> of another frame: the values are aligned on the
  index key, a key the Series does not have gets NaN.
\<close>

definition setitem_series :: "column \<Rightarrow> (string \<Rightarrow> cell) \<Rightarrow> frame \<Rightarrow> frame" where
  "setitem_series c s df =
     \<lparr>columns = (if c \<in> set (columns df) then columns df else columns df @ [c]),
      rows = map (\<lambda>(k, rw). (k, rw(c := s k))) (rows df)\<rparr>"

definition series :: "frame \<Rightarrow> column \<Rightarrow> string \<Rightarrow> cell" where
  "series df c k = (case map_of (rows df) k of None \<Rightarrow> None | Some rw \<Rightarrow> rw c)"

text \<open>
  \<^verbatim>\<open>df[c] = df[c'].cumsum()\<close>: a Series computed from the frame itself, in the frame's
  row order, so the values are assigned by position (the index keys are unique after
  line 72).
\<close>

definition column_values :: "column \<Rightarrow> frame \<Rightarrow> cell list" where
  "column_values c df = map (\<lambda>(k, rw). rw c) (rows df)"

definition index :: "frame \<Rightarrow> string list" where
  "index df = map fst (rows df)"

definition setitem_values :: "column \<Rightarrow> cell list \<Rightarrow> frame \<Rightarrow> frame" where
  "setitem_values c vs df =
     \<lparr>columns = (if c \<in> set (columns df) then columns df else columns df @ [c]),
      rows = map (\<lambda>((k, rw), v). (k, rw(c := v))) (zip (rows df) vs)\<rparr>"

section \<open>The script\<close>

subsection \<open>Bloc aggregation (lines 44 to 72)\<close>

definition coalition :: "party list" where
  "coalition =
     [The_Union, Shas, United_Torah_Judaism, Religious_Zionism, Bait_Yehudi, saar]"

definition opposition :: "party list" where
  "opposition =
     [There_Is_Future, The_Kingdom_Camp, Israel_Is_Our_Home, United_Arab_List,
      Hadash_Taal, The_Work, Meretz]"

definition SAAR_RATIO_FROM_GANTZ :: real where
  "SAAR_RATIO_FROM_GANTZ = 0"

text \<open>
  Lines 64 and 65, for any value of the ratio: the column \<^verbatim>\<open>saar\<close> is set first, from
  the votes of The Kingdom Camp, then that column is scaled down.
\<close>

definition split_votes :: "real \<Rightarrow> frame \<Rightarrow> pd_error + frame" where
  "split_votes split_ratio data =
     then_do (reading [votes The_Kingdom_Camp] data
       (setitem (votes saar)
          (\<lambda>rw. pmul (rw (votes The_Kingdom_Camp)) (Some split_ratio)) data))
     (\<lambda>data. reading [votes The_Kingdom_Camp] data
       (setitem (votes The_Kingdom_Camp)
          (\<lambda>rw. pmul (rw (votes The_Kingdom_Camp)) (Some (1 - split_ratio))) data))"

text \<open>Lines 68 and 69: the row-wise sums over the keys of the two dictionaries.\<close>

definition bloc_totals :: "frame \<Rightarrow> pd_error + frame" where
  "bloc_totals data =
     then_do (reading (map votes coalition) data
       (setitem (total coal) (\<lambda>rw. nansum (map (\<lambda>p. rw (votes p)) coalition)) data))
     (\<lambda>data. reading (map votes opposition) data
       (setitem (total opp) (\<lambda>rw. nansum (map (\<lambda>p. rw (votes p)) opposition)) data))"

text \<open>Line 72: of the rows that share an index key only the first is kept.\<close>

fun drop_duplicated :: "string list \<Rightarrow> (string \<times> row) list \<Rightarrow> (string \<times> row) list" where
  "drop_duplicated seen [] = []"
| "drop_duplicated seen ((k, rw) # rs) =
     (if k \<in> set seen then drop_duplicated seen rs
      else (k, rw) # drop_duplicated (k # seen) rs)"

definition keep_first :: "frame \<Rightarrow> frame" where
  "keep_first data = data\<lparr>rows := drop_duplicated [] (rows data)\<rparr>"

definition aggregate :: "real \<Rightarrow> frame \<Rightarrow> pd_error + frame" where
  "aggregate split_ratio data =
     then_do (split_votes split_ratio data) (\<lambda>data.
     then_do (bloc_totals data) (\<lambda>data.
     Inr (keep_first data)))"

subsection \<open>Cleaning (lines 75 to 77)\<close>

definition positive :: "cell \<Rightarrow> bool" where
  "positive c = (case c of None \<Rightarrow> False | Some v \<Rightarrow> 0 < v)"

definition checked :: "column list" where
  "checked = [total coal, total opp, reserve_days]"

text \<open>
  Line 75, \<^verbatim>\<open>data[data[['coal', 'opp', 'reserve_days']] > 0]\<close>: indexing a frame with a
  boolean frame is \<^verbatim>\<open>DataFrame.where\<close>. It keeps every row. The mask has the three
  columns only; pandas aligns it to the columns of \<^verbatim>\<open>data\<close> and fills the columns the
  mask lacks with False. So a cell survives when it belongs to one of the three columns
  and is greater than zero, and every other cell becomes NaN.
\<close>

definition where_positive :: "frame \<Rightarrow> pd_error + frame" where
  "where_positive data =
     reading checked data
       (data\<lparr>rows := map (\<lambda>(k, rw).
          (k, \<lambda>c. if c \<in> set checked \<and> positive (rw c) then rw c else None)) (rows data)\<rparr>)"

text \<open>Line 76, \<^verbatim>\<open>dropna(subset=...)\<close>: rows with NaN in one of the columns are dropped.\<close>

definition dropna_rows :: "column list \<Rightarrow> frame \<Rightarrow> pd_error + frame" where
  "dropna_rows subset_cols df =
     reading subset_cols df
       (df\<lparr>rows := filter (\<lambda>(k, rw). \<forall>c \<in> set subset_cols. rw c \<noteq> None) (rows df)\<rparr>)"

text \<open>Line 77, \<^verbatim>\<open>dropna(axis=1)\<close>: columns with NaN in one of the rows are dropped.\<close>

definition dropna_columns :: "frame \<Rightarrow> frame" where
  "dropna_columns df =
     df\<lparr>columns := filter (\<lambda>c. \<forall>(k, rw) \<in> set (rows df). rw c \<noteq> None) (columns df)\<rparr>"

definition clean :: "frame \<Rightarrow> pd_error + frame" where
  "clean data =
     then_do (where_positive data) (\<lambda>data_analysis.
     then_do (dropna_rows checked data_analysis) (\<lambda>data_analysis.
     Inr (dropna_columns data_analysis)))"

subsection \<open>Metrics and ratios (lines 81 to 92)\<close>

definition metrics :: "frame \<Rightarrow> frame \<Rightarrow> pd_error + frame" where
  "metrics data data_analysis =
     then_do (reading [valid_votes] data
       (setitem_series kosher (series data valid_votes) data_analysis)) (\<lambda>da.
     then_do (reading [reserve_days, total coal] da
       (setitem (reserves_ratio coal) (\<lambda>rw. pdiv (rw reserve_days) (rw (total coal))) da)) (\<lambda>da.
     then_do (reading [reserve_days, total opp] da
       (setitem (reserves_ratio opp) (\<lambda>rw. pdiv (rw reserve_days) (rw (total opp))) da)) (\<lambda>da.
     then_do (reading [total coal, total opp] da
       (setitem (ratio coal)
          (\<lambda>rw. pdiv (rw (total coal)) (padd (rw (total coal)) (rw (total opp)))) da)) (\<lambda>da.
     then_do (reading [ratio coal] da
       (setitem (ratio opp) (\<lambda>rw. psub (Some 1) (rw (ratio coal))) da)) (\<lambda>da.
     then_do (reading [ratio coal, reserve_days] da
       (setitem (reserves_times_ratio coal)
          (\<lambda>rw. pmul (rw (ratio coal)) (rw reserve_days)) da)) (\<lambda>da.
     reading [ratio opp, reserve_days] da
       (setitem (reserves_times_ratio opp)
          (\<lambda>rw. pmul (rw (ratio opp)) (rw reserve_days)) da)))))))"

subsection \<open>Binning, cumulative sums and normalisation (lines 95 to 123)\<close>

text \<open>
  \<^verbatim>\<open>sort_values(by=...)\<close> sorts ascending with NaN last. The order it leaves among rows
  of equal key is not fixed by pandas (the default sort kind is not stable); the model
  sorts by insertion, and no result below depends on the order of equal keys.
\<close>

definition cell_le :: "cell \<Rightarrow> cell \<Rightarrow> bool" where
  "cell_le a b =
     (case b of None \<Rightarrow> True
      | Some y \<Rightarrow> (case a of None \<Rightarrow> False | Some x \<Rightarrow> x \<le> y))"

fun insert_row :: "column \<Rightarrow> string \<times> row \<Rightarrow> (string \<times> row) list \<Rightarrow> (string \<times> row) list" where
  "insert_row key x [] = [x]"
| "insert_row key x (y # ys) =
     (if cell_le (snd x key) (snd y key) then x # y # ys else y # insert_row key x ys)"

definition sort_values :: "column \<Rightarrow> frame \<Rightarrow> frame" where
  "sort_values key df = df\<lparr>rows := foldr (insert_row key) (rows df) []\<rparr>"

text \<open>\<^verbatim>\<open>cumsum\<close> skips NaN: a NaN stays NaN and the running total goes on.\<close>

fun cumsum_from :: "real \<Rightarrow> cell list \<Rightarrow> cell list" where
  "cumsum_from acc [] = []"
| "cumsum_from acc (None # cs) = None # cumsum_from acc cs"
| "cumsum_from acc (Some v # cs) = Some (acc + v) # cumsum_from (acc + v) cs"

definition cumsum :: "cell list \<Rightarrow> cell list" where
  "cumsum cs = cumsum_from 0 cs"

text \<open>The aggregation \<^verbatim>\<open>"max"\<close> skips NaN; a group with no value gives NaN.\<close>

fun nanmax :: "cell list \<Rightarrow> cell" where
  "nanmax [] = None"
| "nanmax (None # cs) = nanmax cs"
| "nanmax (Some v # cs) = (case nanmax cs of None \<Rightarrow> Some v | Some m \<Rightarrow> Some (max v m))"

text \<open>
  \<^verbatim>\<open>groupby(key, observed=False).agg("max")\<close> on a categorical key: one entry for every
  category, which are the labels of the cut, whether or not a row has it.
\<close>

definition groupby_max :: "column \<Rightarrow> column \<Rightarrow> frame \<Rightarrow> (real \<times> cell) list" where
  "groupby_max key val df =
     map (\<lambda>l. (l, nanmax (map (\<lambda>(k, rw). rw val)
                    (filter (\<lambda>(k, rw). rw key = Some l) (rows df))))) cut_labels"

definition loc :: "real \<Rightarrow> (real \<times> cell) list \<Rightarrow> pd_error + cell" where
  "loc label col =
     (case map_of col label of None \<Rightarrow> Inl (KeyError_label label) | Some v \<Rightarrow> Inr v)"

text \<open>The result table: one column per bloc, each indexed by the bin labels.\<close>

type_synonym results = "bloc \<rightharpoonup> (real \<times> cell) list"

text \<open>The body of the loop at lines 98 to 123, on the state it updates.\<close>

definition bin_bloc :: "bloc \<Rightarrow> frame \<times> results \<Rightarrow> pd_error + frame \<times> results" where
  "bin_bloc party s =
     (case s of (data_analysis, results) \<Rightarrow>
        then_do (reading [ratio party] data_analysis
          (setitem (cut party)
             (\<lambda>rw. pd_cut cut_bins cut_labels (rw (ratio party))) data_analysis)) (\<lambda>da.
        then_do (reading [cut party] da (sort_values (cut party) da)) (\<lambda>da.
        then_do (reading [reserve_days] da
          (setitem_values (reserves party) (cumsum (column_values reserve_days da)) da)) (\<lambda>da.
        then_do (reading [kosher] da
          (setitem_values (votes_cumsum party) (cumsum (column_values kosher da)) da)) (\<lambda>da.
        then_do (reading [reserves party, cut party] da
          (groupby_max (cut party) (reserves party) da)) (\<lambda>col.
        then_do (loc (95 / 100) col) (\<lambda>d.
        Inr (da, results(party \<mapsto> map (\<lambda>(l, v). (l, pdiv v d)) col)))))))))"

subsection \<open>The whole run\<close>

definition analysis_table :: "real \<Rightarrow> frame \<Rightarrow> pd_error + frame" where
  "analysis_table split_ratio data =
     then_do (aggregate split_ratio data) (\<lambda>data.
     then_do (clean data) (\<lambda>data_analysis.
     metrics data data_analysis))"

definition script :: "real \<Rightarrow> frame \<Rightarrow> pd_error + frame \<times> results" where
  "script split_ratio data =
     then_do (analysis_table split_ratio data) (\<lambda>data_analysis.
     then_do (bin_bloc coal (data_analysis, Map.empty)) (\<lambda>s.
     bin_bloc opp s))"

text \<open>The script as it is configured, with the ratio of line 63.\<close>

definition main_script :: "frame \<Rightarrow> pd_error + frame \<times> results" where
  "main_script data = script SAAR_RATIO_FROM_GANTZ data"

text \<open>The values of one column of the result table, in the order of the bin labels.\<close>

definition result_values :: "bloc \<Rightarrow> frame \<times> results \<Rightarrow> cell list" where
  "result_values party s = (case snd s party of None \<Rightarrow> [] | Some col \<Rightarrow> map snd col)"

section \<open>Example tables\<close>

text \<open>The columns the script reads from the joined input table.\<close>

definition input_columns :: "column list" where
  "input_columns =
     map votes [The_Union, Shas, United_Torah_Judaism, Religious_Zionism, Bait_Yehudi,
       There_Is_Future, The_Kingdom_Camp, Israel_Is_Our_Home, United_Arab_List,
       Hadash_Taal, The_Work, Meretz] @ [valid_votes, reserve_days]"

text \<open>
  A locality with votes for one coalition party and one opposition party, no votes for
  the others, its valid votes and its reserve days (NaN when the reserve table has no
  row for it).
\<close>

definition locality :: "real \<Rightarrow> real \<Rightarrow> real \<Rightarrow> cell \<Rightarrow> row" where
  "locality u c valid days =
     (\<lambda>x. case x of votes p \<Rightarrow> Some 0 | _ \<Rightarrow> None)
       (votes The_Union := Some u, votes The_Kingdom_Camp := Some c,
        valid_votes := Some valid, reserve_days := days)"

definition two_localities :: frame where
  "two_localities =
     \<lparr>columns = input_columns,
      rows = [(''A'', locality 80 20 100 (Some 100)), (''B'', locality 20 80 100 (Some 50))]\<rparr>"

definition landslides :: frame where
  "landslides =
     \<lparr>columns = input_columns,
      rows = [(''A'', locality 97 3 100 (Some 100)), (''B'', locality 3 97 100 (Some 50)),
              (''C'', locality 10 10 20 None)]\<rparr>"

text \<open>A table as it reaches the cleaning step, with the bloc totals already there.\<close>

definition table_row :: "cell \<Rightarrow> real \<Rightarrow> real \<Rightarrow> real \<Rightarrow> cell \<Rightarrow> row" where
  "table_row population valid c_total o_total days =
     (\<lambda>x. None)
       (other ''population'' := population, valid_votes := Some valid,
        total coal := Some c_total, total opp := Some o_total, reserve_days := days)"

definition joined_table :: frame where
  "joined_table =
     \<lparr>columns = [other ''population'', valid_votes, total coal, total opp, reserve_days],
      rows = [(''A'', table_row (Some 1000) 100 80 20 (Some 100)),
              (''B'', table_row (Some 500) 50 0 50 (Some 10)),
              (''C'', table_row None 20 10 10 None)]\<rparr>"

section \<open>Binning\<close>

lemma length_cut_bins: "length cut_bins = 21"
  by (simp add: cut_bins_def arange_def)

lemma nth_cut_bins: "k < 21 \<Longrightarrow> cut_bins ! k = real k / 20"
  by (simp add: cut_bins_def arange_def)

lemma length_cut_labels: "length cut_labels = 20"
  by (simp add: cut_labels_def arange_def)

lemma rint_of_nat: "rint (real n) = int n"
  by (simp add: rint_def)

lemma nth_cut_labels: "k < 20 \<Longrightarrow> cut_labels ! k = real k / 20"
proof -
  assume k: "k < 20"
  have "real k * (5 / 100) * 10 ^ 2 = real (5 * k)" by simp
  then have "rint (real k * (5 / 100) * 10 ^ 2) = int (5 * k)"
    using rint_of_nat [of "5 * k"] by simp
  then show ?thesis using k
    by (simp add: cut_labels_def arange_def np_round_def)
qed

lemma searchsorted_cut_bins:
  assumes k: "k < 20" and lo: "real k / 20 < x" and hi: "x \<le> (real k + 1) / 20"
  shows "searchsorted_left cut_bins x = k + 1"
proof -
  have "takeWhile (\<lambda>b. b < x) cut_bins = take (k + 1) cut_bins"
  proof (rule takeWhile_eq_take_P_nth)
    fix i assume "i < k + 1" "i < length cut_bins"
    then have "real i \<le> real k" by simp
    then have "real i / 20 \<le> real k / 20" by simp
    with lo \<open>i < length cut_bins\<close> show "cut_bins ! i < x"
      by (simp add: nth_cut_bins length_cut_bins)
  next
    assume "k + 1 < length cut_bins"
    with hi k show "\<not> cut_bins ! (k + 1) < x"
      by (simp add: nth_cut_bins)
  qed
  with k show ?thesis
    by (simp add: searchsorted_left_def length_cut_bins)
qed

lemma pd_cut_in_bin:
  assumes k: "k < 20" and lo: "real k / 20 < x" and hi: "x \<le> (real k + 1) / 20"
  shows "pd_cut cut_bins cut_labels (Some x) = Some (real k / 20)"
  using k searchsorted_cut_bins [OF k lo hi]
  by (simp add: pd_cut_def length_cut_bins nth_cut_labels)







section \<open>Errors and column access\<close>

lemma then_do_simps [simp]:
  "then_do (Inr x) f = f x" "then_do (Inl e) f = Inl e"
  by (simp_all add: then_do_def)

lemma then_do_eq_Inr: "then_do m f = Inr y \<longleftrightarrow> (\<exists>x. m = Inr x \<and> f x = Inr y)"
  by (cases m) simp_all

lemma reading_eq_Inr: "reading cs df v = Inr w \<longleftrightarrow> set cs \<subseteq> set (columns df) \<and> w = v"
proof (cases "find (\<lambda>c. c \<notin> set (columns df)) cs")
  case None
  then have "set cs \<subseteq> set (columns df)" by (auto simp: find_None_iff)
  with None show ?thesis by (auto simp: reading_def)
next
  case (Some c)
  then have "c \<in> set cs" "c \<notin> set (columns df)"
    by (auto simp: find_Some_iff)
  with Some show ?thesis by (auto simp: reading_def)
qed

section \<open>Cleaning\<close>

lemma positive_iff: "positive c \<longleftrightarrow> (\<exists>v. c = Some v \<and> 0 < v)"
  by (cases c) (simp_all add: positive_def)

lemma set_checked: "c \<in> set checked \<longleftrightarrow> c = total coal \<or> c = total opp \<or> c = reserve_days"
  by (auto simp: checked_def)

lemma clean_eq_Inr:
  "clean data = Inr da \<longleftrightarrow>
     set checked \<subseteq> set (columns data) \<and>
     da = dropna_columns (data\<lparr>rows :=
            filter (\<lambda>(k, rw). \<forall>c \<in> set checked. rw c \<noteq> None)
              (map (\<lambda>(k, rw). (k, \<lambda>c. if c \<in> set checked \<and> positive (rw c) then rw c else None))
                 (rows data))\<rparr>)"
  unfolding clean_def where_positive_def dropna_rows_def then_do_eq_Inr reading_eq_Inr
  by auto


lemma mask_filter:
  "filter (\<lambda>(k, rw). \<forall>c \<in> set checked. rw c \<noteq> None)
     (map (\<lambda>(k, rw). (k, \<lambda>c. if c \<in> set checked \<and> positive (rw c) then rw c else None)) rs)
   = map (\<lambda>(k, rw). (k, \<lambda>c. if c \<in> set checked then rw c else None))
       (filter (\<lambda>(k, rw). \<forall>c \<in> set checked. positive (rw c)) rs)"
proof (induction rs)
  case Nil
  show ?case by simp
next
  case (Cons r rs)
  obtain k rw where r: "r = (k, rw)" by (cases r)
  show ?case
  proof (cases "\<forall>c \<in> set checked. positive (rw c)")
    case True
    then have "(\<lambda>c. if c \<in> set checked \<and> positive (rw c) then rw c else None)
             = (\<lambda>c. if c \<in> set checked then rw c else None)"
      by (auto simp: fun_eq_iff)
    moreover have "\<forall>c \<in> set checked. rw c \<noteq> None"
      using True by (auto simp: positive_iff)
    ultimately show ?thesis using True Cons r by simp
  next
    case False
    then obtain c where "c \<in> set checked" "\<not> positive (rw c)" by blast
    then have "\<not> (\<forall>c \<in> set checked.
        (if c \<in> set checked \<and> positive (rw c) then rw c else None) \<noteq> None)"
      by auto
    then show ?thesis using False Cons r by simp
  qed
qed

lemma clean_rows:
  assumes "clean data = Inr da"
  shows "rows da =
     map (\<lambda>(k, rw). (k, \<lambda>c. if c \<in> set checked then rw c else None))
       (filter (\<lambda>(k, rw). \<forall>c \<in> set checked. positive (rw c)) (rows data))"
  using assms mask_filter [of "rows data"]
  by (simp add: clean_eq_Inr dropna_columns_def)

lemma clean_columns_filter:
  assumes "clean data = Inr da"
  shows "columns da = filter (\<lambda>c. \<forall>(k, rw) \<in> set (rows da). rw c \<noteq> None) (columns data)"
  using assms by (simp add: clean_eq_Inr dropna_columns_def)

lemma clean_returns:
  "set checked \<subseteq> set (columns data) \<Longrightarrow> \<exists>da. clean data = Inr da"
  by (simp add: clean_eq_Inr)

lemma clean_row_cases:
  assumes "clean data = Inr da" and "(k, rw') \<in> set (rows da)"
  obtains rw where "(k, rw) \<in> set (rows data)" "\<forall>c \<in> set checked. positive (rw c)"
    "rw' = (\<lambda>c. if c \<in> set checked then rw c else None)"
  using assms(2) unfolding clean_rows [OF assms(1)] by auto


text \<open>
  Claim C1. Every row of the analysis table the cleaning step returns has a coalition
  total, an opposition total and reserve days that are present and strictly greater than
  zero; and the rows of the analysis table are, in order and with the same keys and the
  same three values, exactly the input rows that satisfy this condition, so every input
  row that fails it is excluded.
\<close>

theorem clean_keeps_positive_rows:
  assumes "clean data = Inr data_analysis"
  shows "(\<forall>(k, rw) \<in> set (rows data_analysis).
            \<exists>c_total o_total days.
              rw (total coal) = Some c_total \<and> 0 < c_total \<and>
              rw (total opp) = Some o_total \<and> 0 < o_total \<and>
              rw reserve_days = Some days \<and> 0 < days)
       \<and> list_all2 (\<lambda>(k', rw') (k, rw). k' = k \<and> rw' (total coal) = rw (total coal)
              \<and> rw' (total opp) = rw (total opp) \<and> rw' reserve_days = rw reserve_days)
            (rows data_analysis)
            (filter (\<lambda>(k, rw). positive (rw (total coal)) \<and> positive (rw (total opp))
                \<and> positive (rw reserve_days)) (rows data))"
proof
  show "\<forall>(k, rw) \<in> set (rows data_analysis).
            \<exists>c_total o_total days.
              rw (total coal) = Some c_total \<and> 0 < c_total \<and>
              rw (total opp) = Some o_total \<and> 0 < o_total \<and>
              rw reserve_days = Some days \<and> 0 < days"
  proof (clarify)
    fix k rw' assume "(k, rw') \<in> set (rows data_analysis)"
    with assms obtain rw where rw: "\<forall>c \<in> set checked. positive (rw c)"
      "rw' = (\<lambda>c. if c \<in> set checked then rw c else None)"
      by (rule clean_row_cases)
    from rw(1) have "positive (rw (total coal))" "positive (rw (total opp))"
      "positive (rw reserve_days)"
      by (simp_all add: set_checked)
    then show "\<exists>c_total o_total days.
              rw' (total coal) = Some c_total \<and> 0 < c_total \<and>
              rw' (total opp) = Some o_total \<and> 0 < o_total \<and>
              rw' reserve_days = Some days \<and> 0 < days"
      unfolding rw(2) by (simp add: set_checked positive_iff)
  qed
next
  have eq: "(\<lambda>(k, rw). positive (rw (total coal)) \<and> positive (rw (total opp))
                \<and> positive (rw reserve_days))
          = (\<lambda>(k :: string, rw). \<forall>c \<in> set checked. positive (rw c))"
    by (simp add: fun_eq_iff checked_def)
  have "list_all2 (\<lambda>(k', rw') (k, rw). k' = k \<and> rw' (total coal) = rw (total coal)
              \<and> rw' (total opp) = rw (total opp) \<and> rw' reserve_days = rw reserve_days)
          (map (\<lambda>(k, rw). (k, \<lambda>c. if c \<in> set checked then rw c else None)) rs) rs"
    for rs :: "(string \<times> row) list"
  proof (induction rs)
    case Nil
    show ?case by simp
  next
    case (Cons r rs)
    obtain k rw where "r = (k, rw)" by (cases r)
    with Cons show ?case by (simp add: set_checked)
  qed
  then show "list_all2 (\<lambda>(k', rw') (k, rw). k' = k \<and> rw' (total coal) = rw (total coal)
              \<and> rw' (total opp) = rw (total opp) \<and> rw' reserve_days = rw reserve_days)
            (rows data_analysis)
            (filter (\<lambda>(k, rw). positive (rw (total coal)) \<and> positive (rw (total opp))
                \<and> positive (rw reserve_days)) (rows data))"
    unfolding eq clean_rows [OF assms] .
qed

lemma joined_table_kept:
  "filter (\<lambda>(k, rw). \<forall>c \<in> set checked. positive (rw c)) (rows joined_table)
   = [(''A'', table_row (Some 1000) 100 80 20 (Some 100))]"
  by (simp add: joined_table_def table_row_def checked_def positive_def)

theorem clean_keeps_positive_rows_witness:
  "\<exists>da. clean joined_table = Inr da \<and> map fst (rows da) = [''A'']
     \<and> (\<forall>(k, rw) \<in> set (rows da).
            \<exists>c_total o_total days.
              rw (total coal) = Some c_total \<and> 0 < c_total \<and>
              rw (total opp) = Some o_total \<and> 0 < o_total \<and>
              rw reserve_days = Some days \<and> 0 < days)"
proof -
  obtain da where da: "clean joined_table = Inr da"
    using clean_returns [of joined_table] by (auto simp: joined_table_def checked_def)
  have "map fst (rows da) = [''A'']"
    unfolding clean_rows [OF da] joined_table_kept by simp
  moreover note conjunct1 [OF clean_keeps_positive_rows [OF da]]
  ultimately show ?thesis using da by (intro exI [of _ da] conjI)
qed


lemma clean_columns_cases:
  assumes "clean data = Inr da"
  shows "(rows da \<noteq> [] \<longrightarrow> columns da = filter (\<lambda>c. c \<in> set checked) (columns data))
       \<and> (rows da = [] \<longrightarrow> columns da = columns data)"
proof (intro conjI impI)
  assume "rows da \<noteq> []"
  then obtain k rw' where m: "(k, rw') \<in> set (rows da)" by (cases "rows da") auto
  have "(\<forall>(k, rw) \<in> set (rows da). rw c \<noteq> None) \<longleftrightarrow> c \<in> set checked" for c
  proof
    assume a: "\<forall>(k, rw) \<in> set (rows da). rw c \<noteq> None"
    from assms m obtain rw where "rw' = (\<lambda>c. if c \<in> set checked then rw c else None)"
      by (rule clean_row_cases)
    moreover from a m have "rw' c \<noteq> None" by auto
    ultimately show "c \<in> set checked" by (cases "c \<in> set checked") simp_all
  next
    assume c: "c \<in> set checked"
    show "\<forall>(k, rw) \<in> set (rows da). rw c \<noteq> None"
    proof (rule ballI)
      fix x assume x: "x \<in> set (rows da)"
      obtain k rw'' where kx: "x = (k, rw'')" by (cases x)
      from assms x obtain rw where rw: "\<forall>c \<in> set checked. positive (rw c)"
        "rw'' = (\<lambda>c. if c \<in> set checked then rw c else None)"
        unfolding kx by (rule clean_row_cases)
      from rw(1) c have "positive (rw c)" by simp
      then have "rw c \<noteq> None" by (auto simp: positive_iff)
      with c show "case x of (k, rw) \<Rightarrow> rw c \<noteq> None"
        unfolding kx rw(2) by simp
    qed
  qed
  then show "columns da = filter (\<lambda>c. c \<in> set checked) (columns data)"
    unfolding clean_columns_filter [OF assms] by simp
next
  assume "rows da = []"
  then show "columns da = columns data"
    unfolding clean_columns_filter [OF assms] by simp
qed

text \<open>
  Claim C3, as the code has it. Rows are filtered before columns are dropped, but the
  mask of line 75 has already blanked every cell outside the three checked columns. So
  when at least one row survives, the analysis table keeps exactly the three checked
  columns and drops every other column, whatever its values were; when no row survives,
  no column has a missing value and all columns are kept.
\<close>

theorem clean_drops_unchecked_columns:
  assumes "clean data = Inr data_analysis"
  shows "(rows data_analysis \<noteq> [] \<longrightarrow>
            columns data_analysis =
              filter (\<lambda>c. c = total coal \<or> c = total opp \<or> c = reserve_days) (columns data))
       \<and> (rows data_analysis = [] \<longrightarrow> columns data_analysis = columns data)"
  using clean_columns_cases [OF assms] by (simp add: set_checked)

lemma joined_table_clean:
  obtains da where "clean joined_table = Inr da" "map fst (rows da) = [''A'']"
    "columns da = [total coal, total opp, reserve_days]"
proof -
  obtain da where da: "clean joined_table = Inr da"
    using clean_returns [of joined_table] by (auto simp: joined_table_def checked_def)
  have r: "map fst (rows da) = [''A'']"
    unfolding clean_rows [OF da] joined_table_kept by simp
  then have "rows da \<noteq> []" by auto
  with clean_columns_cases [OF da]
  have "columns da = filter (\<lambda>c. c \<in> set checked) (columns joined_table)" by simp
  then have "columns da = [total coal, total opp, reserve_days]"
    by (simp add: joined_table_def checked_def)
  with da r show thesis by (rule that)
qed

theorem clean_drops_unchecked_columns_witness:
  "\<exists>da. clean joined_table = Inr da \<and> rows da \<noteq> []
     \<and> columns da = [total coal, total opp, reserve_days]"
proof -
  obtain da where da: "clean joined_table = Inr da" "map fst (rows da) = [''A'']"
    by (rule joined_table_clean)
  then have ne: "rows da \<noteq> []" by auto
  with clean_drops_unchecked_columns [OF da(1)]
  have "columns da =
      filter (\<lambda>c. c = total coal \<or> c = total opp \<or> c = reserve_days) (columns joined_table)"
    by simp
  then have "columns da = [total coal, total opp, reserve_days]"
    by (simp add: joined_table_def)
  with da(1) ne show ?thesis by (intro exI [of _ da] conjI)
qed

text \<open>
  Claim C3 as stated fails: in \<open>joined_table\<close> the column \<open>population\<close> has its only
  missing value in row C, which the row filter excludes, and the column of valid votes
  has no missing value at all; row A survives, and neither column is in the analysis
  table.
\<close>

theorem column_not_preserved_counterexample:
  "column_values (other ''population'') joined_table = [Some 1000, Some 500, None]
   \<and> column_values valid_votes joined_table = [Some 100, Some 50, Some 20]
   \<and> map_sum id index (clean joined_table) = Inr [''A'']
   \<and> map_sum id columns (clean joined_table) = Inr [total coal, total opp, reserve_days]"
proof -
  obtain da where da: "clean joined_table = Inr da" "map fst (rows da) = [''A'']"
    "columns da = [total coal, total opp, reserve_days]"
    by (rule joined_table_clean)
  have "column_values (other ''population'') joined_table = [Some 1000, Some 500, None]"
    "column_values valid_votes joined_table = [Some 100, Some 50, Some 20]"
    by (simp_all add: column_values_def joined_table_def table_row_def)
  with da show ?thesis by (simp add: index_def)
qed

section \<open>Bloc aggregation\<close>

lemma list_all2_map_same:
  "list_all2 P xs (map f xs) \<longleftrightarrow> (\<forall>x \<in> set xs. P x (f x))"
  by (simp add: list_all2_map2 list_all2_same)

lemma split_votes_eq_Inr:
  "split_votes r data = Inr data1 \<longleftrightarrow>
     votes The_Kingdom_Camp \<in> set (columns data) \<and>
     data1 = setitem (votes The_Kingdom_Camp)
               (\<lambda>rw. pmul (rw (votes The_Kingdom_Camp)) (Some (1 - r)))
               (setitem (votes saar) (\<lambda>rw. pmul (rw (votes The_Kingdom_Camp)) (Some r)) data)"
  unfolding split_votes_def then_do_eq_Inr reading_eq_Inr
  by (auto simp: setitem_def)

lemma split_votes_rows:
  assumes "split_votes r data = Inr data1"
  shows "rows data1 =
     map (\<lambda>(k, rw). (k, rw(votes saar := pmul (rw (votes The_Kingdom_Camp)) (Some r),
                            votes The_Kingdom_Camp := pmul (rw (votes The_Kingdom_Camp)) (Some (1 - r)))))
       (rows data)"
  using assms by (simp add: split_votes_eq_Inr setitem_def split_def)

lemma split_votes_columns:
  assumes "split_votes r data = Inr data1"
  shows "set (columns data1) = insert (votes saar) (set (columns data))"
  using assms by (auto simp: split_votes_eq_Inr setitem_def)

lemma bloc_totals_eq_Inr:
  "bloc_totals data = Inr data2 \<longleftrightarrow>
     votes ` set coalition \<subseteq> set (columns data) \<and> votes ` set opposition \<subseteq> set (columns data) \<and>
     data2 = setitem (total opp) (\<lambda>rw. nansum (map (\<lambda>p. rw (votes p)) opposition))
               (setitem (total coal) (\<lambda>rw. nansum (map (\<lambda>p. rw (votes p)) coalition)) data)"
  unfolding bloc_totals_def then_do_eq_Inr reading_eq_Inr
  by (auto simp: setitem_def)

lemma bloc_totals_rows:
  assumes "bloc_totals data = Inr data2"
  shows "rows data2 =
     map (\<lambda>(k, rw). (k, rw(total coal := nansum (map (\<lambda>p. rw (votes p)) coalition),
                            total opp := nansum (map (\<lambda>p. rw (votes p)) opposition))))
       (rows data)"
  using assms by (simp add: bloc_totals_eq_Inr setitem_def split_def)

lemma split_totals_rows:
  assumes "split_votes r data = Inr data1" and "bloc_totals data1 = Inr data2"
  shows "rows data2 =
     map (\<lambda>(k, rw). (k, rw
        (votes saar := pmul (rw (votes The_Kingdom_Camp)) (Some r),
         votes The_Kingdom_Camp := pmul (rw (votes The_Kingdom_Camp)) (Some (1 - r)),
         total coal := nansum (map (\<lambda>p. rw (votes p))
              [The_Union, Shas, United_Torah_Judaism, Religious_Zionism, Bait_Yehudi]
            @ [pmul (rw (votes The_Kingdom_Camp)) (Some r)]),
         total opp := nansum (rw (votes There_Is_Future)
            # pmul (rw (votes The_Kingdom_Camp)) (Some (1 - r))
            # map (\<lambda>p. rw (votes p))
                [Israel_Is_Our_Home, United_Arab_List, Hadash_Taal, The_Work, Meretz]))))
       (rows data)"
  unfolding bloc_totals_rows [OF assms(2)] split_votes_rows [OF assms(1)]
  by (simp add: split_def coalition_def opposition_def)






lemma split_totals_returns:
  assumes "votes ` (set coalition \<union> set opposition) \<subseteq> insert (votes saar) (set (columns data))"
  obtains data1 data2 where "split_votes r data = Inr data1" "bloc_totals data1 = Inr data2"
proof -
  from assms have "votes The_Kingdom_Camp \<in> set (columns data)"
    by (auto simp: opposition_def)
  then obtain data1 where d1: "split_votes r data = Inr data1"
    by (simp add: split_votes_eq_Inr)
  from assms have "votes ` set coalition \<subseteq> set (columns data1)"
    "votes ` set opposition \<subseteq> set (columns data1)"
    unfolding split_votes_columns [OF d1] by auto
  then obtain data2 where "bloc_totals data1 = Inr data2"
    by (simp add: bloc_totals_eq_Inr)
  with d1 show thesis by (rule that)
qed

lemma two_localities_columns:
  "votes ` (set coalition \<union> set opposition) \<subseteq> insert (votes saar) (set (columns two_localities))"
  by (simp add: two_localities_def input_columns_def coalition_def opposition_def)

lemma two_localities_rows:
  "rows two_localities =
     [(''A'', locality 80 20 100 (Some 100)), (''B'', locality 20 80 100 (Some 50))]"
  by (simp add: two_localities_def)



text \<open>
  Claim C4, as the code has it. The synthetic column \<^verbatim>\<open>saar\<close> holds the split ratio
  of the votes of The Kingdom Camp, and \<^verbatim>\<open>saar\<close> is a key of the dictionary
  \<^verbatim>\<open>coalition\<close>: the coalition total is the sum of the five other coalition columns
  plus the votes in the synthetic column, and the opposition total is the sum of the six
  other opposition columns plus the votes left in the column of The Kingdom Camp.
\<close>

theorem split_votes_counted_in_coalition:
  assumes "split_votes split_ratio data = Inr data1" and "bloc_totals data1 = Inr data2"
  shows "list_all2 (\<lambda>(k, rw) (k', rw'). k' = k
      \<and> rw' (votes saar) = pmul (rw (votes The_Kingdom_Camp)) (Some split_ratio)
      \<and> rw' (total coal) =
          padd (nansum (map (\<lambda>p. rw (votes p))
                  [The_Union, Shas, United_Torah_Judaism, Religious_Zionism, Bait_Yehudi]))
               (nansum [rw' (votes saar)])
      \<and> rw' (total opp) =
          padd (nansum (map (\<lambda>p. rw (votes p))
                  [There_Is_Future, Israel_Is_Our_Home, United_Arab_List, Hadash_Taal,
                   The_Work, Meretz]))
               (nansum [pmul (rw (votes The_Kingdom_Camp)) (Some (1 - split_ratio))]))
     (rows data) (rows data2)"
  unfolding split_totals_rows [OF assms] list_all2_map_same
  by (auto simp: nansum_def)

theorem split_votes_counted_in_coalition_witness:
  "\<exists>data1 data2. split_votes (1 / 2) two_localities = Inr data1 \<and> bloc_totals data1 = Inr data2
     \<and> index data2 = [''A'', ''B'']
     \<and> column_values (votes saar) data2 = [Some 10, Some 40]
     \<and> column_values (total coal) data2 = [Some 90, Some 60]
     \<and> column_values (total opp) data2 = [Some 10, Some 40]"
proof -
  obtain data1 data2 where d: "split_votes (1 / 2) two_localities = Inr data1"
    "bloc_totals data1 = Inr data2"
    using two_localities_columns by (rule split_totals_returns)
  from split_votes_counted_in_coalition [OF d]
  have "index data2 = [''A'', ''B'']
     \<and> column_values (votes saar) data2 = [Some 10, Some 40]
     \<and> column_values (total coal) data2 = [Some 90, Some 60]
     \<and> column_values (total opp) data2 = [Some 10, Some 40]"
    unfolding two_localities_rows
    by (auto simp: list_all2_Cons1 index_def column_values_def locality_def nansum_def)
  with d show ?thesis by (intro exI [of _ data1] exI [of _ data2]) simp
qed

lemma aggregate_eq_Inr:
  "aggregate r data = Inr d \<longleftrightarrow>
     (\<exists>data1 data2. split_votes r data = Inr data1 \<and> bloc_totals data1 = Inr data2
        \<and> d = keep_first data2)"
  unfolding aggregate_def then_do_eq_Inr by auto

lemma two_localities_aggregate:
  "map_sum id (column_values c) (aggregate r two_localities) =
     Inr (map (\<lambda>rw. (rw
        (votes saar := pmul (rw (votes The_Kingdom_Camp)) (Some r),
         votes The_Kingdom_Camp := pmul (rw (votes The_Kingdom_Camp)) (Some (1 - r)),
         total coal := nansum (map (\<lambda>p. rw (votes p))
              [The_Union, Shas, United_Torah_Judaism, Religious_Zionism, Bait_Yehudi]
            @ [pmul (rw (votes The_Kingdom_Camp)) (Some r)]),
         total opp := nansum (rw (votes There_Is_Future)
            # pmul (rw (votes The_Kingdom_Camp)) (Some (1 - r))
            # map (\<lambda>p. rw (votes p))
                [Israel_Is_Our_Home, United_Arab_List, Hadash_Taal, The_Work, Meretz]))) c)
       [locality 80 20 100 (Some 100), locality 20 80 100 (Some 50)])"
proof -
  obtain data1 data2 where d: "split_votes r two_localities = Inr data1"
    "bloc_totals data1 = Inr data2"
    using two_localities_columns by (rule split_totals_returns)
  then have "aggregate r two_localities = Inr (keep_first data2)"
    by (simp add: aggregate_eq_Inr)
  then show ?thesis
    unfolding keep_first_def column_values_def
    by (simp add: split_totals_rows [OF d] two_localities_rows)
qed

text \<open>
  Claim C4 as stated fails: with a split ratio of one half the synthetic column of the
  two localities holds 10 and 40 votes, and the coalition totals are 90 and 60, the
  totals 80 and 20 of a run without split plus those votes.
\<close>

theorem synthetic_column_counterexample:
  "saar \<in> set coalition
   \<and> map_sum id (column_values (total coal)) (aggregate 0 two_localities) = Inr [Some 80, Some 20]
   \<and> map_sum id (column_values (votes saar)) (aggregate (1 / 2) two_localities)
       = Inr [Some 10, Some 40]
   \<and> map_sum id (column_values (total coal)) (aggregate (1 / 2) two_localities)
       = Inr [Some 90, Some 60]
   \<and> map_sum id (column_values (total opp)) (aggregate (1 / 2) two_localities)
       = Inr [Some 10, Some 40]"
  unfolding two_localities_aggregate
  by (simp add: coalition_def locality_def nansum_def)

section \<open>Metrics and ratios\<close>

lemma setitem_columns [simp]: "set (columns (setitem c f df)) = insert c (set (columns df))"
  by (auto simp: setitem_def)

lemma setitem_rows [simp]:
  "rows (setitem c f df) = map (\<lambda>(k, rw). (k, rw(c := f rw))) (rows df)"
  by (simp add: setitem_def)

lemma setitem_series_columns [simp]:
  "set (columns (setitem_series c s df)) = insert c (set (columns df))"
  by (auto simp: setitem_series_def)

lemma setitem_series_rows [simp]:
  "rows (setitem_series c s df) = map (\<lambda>(k, rw). (k, rw(c := s k))) (rows df)"
  by (simp add: setitem_series_def)

lemma metrics_rows:
  assumes "metrics data d0 = Inr da"
  shows "rows da = map (\<lambda>(k, rw). (k, rw
      (kosher := series data valid_votes k,
       reserves_ratio coal := pdiv (rw reserve_days) (rw (total coal)),
       reserves_ratio opp := pdiv (rw reserve_days) (rw (total opp)),
       ratio coal := pdiv (rw (total coal)) (padd (rw (total coal)) (rw (total opp))),
       ratio opp := psub (Some 1) (pdiv (rw (total coal)) (padd (rw (total coal)) (rw (total opp)))),
       reserves_times_ratio coal :=
         pmul (pdiv (rw (total coal)) (padd (rw (total coal)) (rw (total opp)))) (rw reserve_days),
       reserves_times_ratio opp :=
         pmul (psub (Some 1) (pdiv (rw (total coal)) (padd (rw (total coal)) (rw (total opp)))))
           (rw reserve_days)))) (rows d0)"
  using assms unfolding metrics_def then_do_eq_Inr reading_eq_Inr
  by (auto simp: split_def)

lemma metrics_returns:
  assumes "valid_votes \<in> set (columns data)" "set checked \<subseteq> set (columns d0)"
  shows "\<exists>da. metrics data d0 = Inr da"
  using assms unfolding metrics_def then_do_eq_Inr reading_eq_Inr
  by (simp add: checked_def)

lemma metrics_columns:
  assumes "metrics data d0 = Inr da"
  shows "set (columns da) = set (columns d0) \<union>
     {kosher, reserves_ratio coal, reserves_ratio opp, ratio coal, ratio opp,
      reserves_times_ratio coal, reserves_times_ratio opp}"
  using assms unfolding metrics_def then_do_eq_Inr reading_eq_Inr
  by auto


lemma analysis_table_eq_Inr:
  "analysis_table r data0 = Inr da \<longleftrightarrow>
     (\<exists>data d0. aggregate r data0 = Inr data \<and> clean data = Inr d0 \<and> metrics data d0 = Inr da)"
  unfolding analysis_table_def then_do_eq_Inr by auto

text \<open>Every row of the analysis table, with the values its columns hold.\<close>

lemma analysis_row_cases:
  assumes "analysis_table r data0 = Inr da" and "(k, rw) \<in> set (rows da)"
  obtains c_total o_total days where
    "0 < c_total" "0 < o_total" "0 < days"
    "rw (total coal) = Some c_total" "rw (total opp) = Some o_total"
    "rw reserve_days = Some days"
    "rw (ratio coal) = Some (c_total / (c_total + o_total))"
    "rw (ratio opp) = Some (1 - c_total / (c_total + o_total))"
    "rw (reserves_times_ratio coal) = Some (c_total / (c_total + o_total) * days)"
    "rw (reserves_times_ratio opp) = Some ((1 - c_total / (c_total + o_total)) * days)"
proof -
  from assms(1) obtain data d0 where c: "clean data = Inr d0" and m: "metrics data d0 = Inr da"
    by (auto simp: analysis_table_eq_Inr)
  from assms(2) obtain rw0 where rw0: "(k, rw0) \<in> set (rows d0)" and
    rw: "rw = rw0
      (kosher := series data valid_votes k,
       reserves_ratio coal := pdiv (rw0 reserve_days) (rw0 (total coal)),
       reserves_ratio opp := pdiv (rw0 reserve_days) (rw0 (total opp)),
       ratio coal := pdiv (rw0 (total coal)) (padd (rw0 (total coal)) (rw0 (total opp))),
       ratio opp := psub (Some 1) (pdiv (rw0 (total coal)) (padd (rw0 (total coal)) (rw0 (total opp)))),
       reserves_times_ratio coal :=
         pmul (pdiv (rw0 (total coal)) (padd (rw0 (total coal)) (rw0 (total opp)))) (rw0 reserve_days),
       reserves_times_ratio opp :=
         pmul (psub (Some 1) (pdiv (rw0 (total coal)) (padd (rw0 (total coal)) (rw0 (total opp)))))
           (rw0 reserve_days))"
    unfolding metrics_rows [OF m] by auto
  from c rw0 obtain rw1 where p: "\<forall>c \<in> set checked. positive (rw1 c)"
    and rw0': "rw0 = (\<lambda>c. if c \<in> set checked then rw1 c else None)"
    by (rule clean_row_cases)
  from p have "positive (rw1 (total coal))" "positive (rw1 (total opp))"
    "positive (rw1 reserve_days)"
    by (simp_all add: set_checked)
  then obtain c_total o_total days where v:
    "rw1 (total coal) = Some c_total" "0 < c_total"
    "rw1 (total opp) = Some o_total" "0 < o_total"
    "rw1 reserve_days = Some days" "0 < days"
    unfolding positive_iff by blast
  then have v0: "rw0 (total coal) = Some c_total" "rw0 (total opp) = Some o_total"
    "rw0 reserve_days = Some days"
    unfolding rw0' by (simp_all add: set_checked)
  have nz: "c_total + o_total \<noteq> 0" using v by linarith
  show thesis
  proof (rule that [of c_total o_total days])
    show "0 < c_total" "0 < o_total" "0 < days" by fact+
  qed (simp_all add: rw v0 nz)
qed




lemmas table_defs =
  analysis_table_def aggregate_def split_votes_def bloc_totals_def keep_first_def clean_def
  where_positive_def dropna_rows_def dropna_columns_def metrics_def reading_def setitem_def
  setitem_series_def series_def coalition_def opposition_def checked_def locality_def
  nansum_def positive_def input_columns_def index_def column_values_def




section \<open>Sorting, cumulative sums and groups\<close>



lemma set_insert_row: "set (insert_row key x ys) = insert x (set ys)"
  by (induction ys) auto

lemma length_insert_row: "length (insert_row key x ys) = Suc (length ys)"
  by (induction ys) auto


lemma set_sort_values: "set (rows (sort_values key df)) = set (rows df)"
proof -
  have "set (foldr (insert_row key) rs []) = set rs" for rs
    by (induction rs) (simp_all add: set_insert_row)
  then show ?thesis by (simp add: sort_values_def)
qed


lemma columns_sort_values [simp]: "columns (sort_values key df) = columns df"
  by (simp add: sort_values_def)

lemma length_cumsum_from: "length (cumsum_from acc cs) = length cs"
  by (induction acc cs rule: cumsum_from.induct) simp_all

lemma length_cumsum: "length (cumsum cs) = length cs"
  by (simp add: cumsum_def length_cumsum_from)


text \<open>The running sum of present, positive values is positive throughout.\<close>

lemma cumsum_from_positive:
  assumes "\<forall>c \<in> set cs. positive c" "0 \<le> acc"
  shows "\<forall>c \<in> set (cumsum_from acc cs). positive c"
  using assms
proof (induction cs arbitrary: acc)
  case Nil
  show ?case by simp
next
  case (Cons c cs)
  then obtain v where v: "c = Some v" "0 < v" by (auto simp: positive_iff)
  with Cons.prems have "0 \<le> acc + v" by simp
  with Cons have "\<forall>c \<in> set (cumsum_from (acc + v) cs). positive c" by simp
  with v Cons.prems show ?case by (simp add: positive_iff)
qed

lemma nanmax_positive:
  assumes "cs \<noteq> []" "\<forall>c \<in> set cs. positive c"
  shows "\<exists>m. nanmax cs = Some m \<and> 0 < m"
  using assms
proof (induction cs)
  case Nil
  then show ?case by simp
next
  case (Cons c cs)
  then obtain v where v: "c = Some v" "0 < v" by (auto simp: positive_iff)
  show ?case
  proof (cases "nanmax cs")
    case None
    with v show ?thesis by simp
  next
    case (Some m)
    with v show ?thesis by (simp add: max_def)
  qed
qed


lemma rows_setitem_values:
  "rows (setitem_values c vs df) = map (\<lambda>((k, rw), v). (k, rw(c := v))) (zip (rows df) vs)"
  by (simp add: setitem_values_def)

lemma columns_setitem_values [simp]:
  "set (columns (setitem_values c vs df)) = insert c (set (columns df))"
  by (auto simp: setitem_values_def)

lemma column_values_setitem_values:
  assumes "length vs = length (rows df)"
  shows "column_values c' (setitem_values c vs df) = (if c' = c then vs else column_values c' df)"
proof -
  have "map (\<lambda>(k, rw). rw c') (map (\<lambda>((k, rw), v). (k, rw(c := v))) (zip rs vs))
      = (if c' = c then vs else map (\<lambda>(k, rw). rw c') rs)"
    if "length vs = length rs" for rs :: "(string \<times> row) list"
    using that by (induction rs vs rule: list_induct2') auto
  with assms show ?thesis
    by (simp add: column_values_def rows_setitem_values)
qed

lemma row_of_setitem_values:
  assumes "(k, rw') \<in> set (rows (setitem_values c vs df))"
  obtains rw v where "(k, rw) \<in> set (rows df)" "rw' = rw(c := v)"
proof -
  from assms obtain x v where "(x, v) \<in> set (zip (rows df) vs)"
    "(k, rw') = (\<lambda>((k, rw), v). (k, rw(c := v))) (x, v)"
    unfolding rows_setitem_values by auto
  moreover obtain k0 rw where "x = (k0, rw)" by (cases x)
  ultimately have "(k, rw) \<in> set (rows df)" "rw' = rw(c := v)"
    by (auto dest: set_zip_leftD)
  then show thesis by (rule that)
qed

lemma bin_bloc_cases:
  assumes "bin_bloc p (da, res) = Inr (da', res')"
  obtains da1 da2 da3 d where
    "da1 = setitem (cut p) (\<lambda>rw. pd_cut cut_bins cut_labels (rw (ratio p))) da"
    "da2 = sort_values (cut p) da1"
    "da3 = setitem_values (reserves p) (cumsum (column_values reserve_days da2)) da2"
    "da' = setitem_values (votes_cumsum p) (cumsum (column_values kosher da3)) da3"
    "loc (95 / 100) (groupby_max (cut p) (reserves p) da') = Inr d"
    "res' = res(p \<mapsto> map (\<lambda>(l, v). (l, pdiv v d)) (groupby_max (cut p) (reserves p) da'))"
  using assms unfolding bin_bloc_def prod.case then_do_eq_Inr reading_eq_Inr
  by blast


lemma length_rows_cumsum_column:
  "length (cumsum (column_values c df)) = length (rows df)"
  by (simp add: length_cumsum column_values_def)

lemma bin_bloc_reserves:
  assumes "bin_bloc p (da, res) = Inr (da', res')"
  shows "column_values (reserves p) da' = cumsum (column_values reserve_days da')"
proof -
  from assms obtain da2 da3 where
    da3: "da3 = setitem_values (reserves p) (cumsum (column_values reserve_days da2)) da2" and
    da': "da' = setitem_values (votes_cumsum p) (cumsum (column_values kosher da3)) da3"
    by (rule bin_bloc_cases)
  have 3: "column_values c da3 =
      (if c = reserves p then cumsum (column_values reserve_days da2) else column_values c da2)" for c
    unfolding da3 by (rule column_values_setitem_values) (rule length_rows_cumsum_column)
  have 4: "column_values c da' =
      (if c = votes_cumsum p then cumsum (column_values kosher da3) else column_values c da3)" for c
    unfolding da' by (rule column_values_setitem_values) (rule length_rows_cumsum_column)
  show ?thesis by (simp add: 3 4)
qed



lemma bin_bloc_row:
  assumes "bin_bloc p (da, res) = Inr (da', res')" and "(k, rw') \<in> set (rows da')"
  obtains rw where "(k, rw) \<in> set (rows da)"
    "rw' (cut p) = pd_cut cut_bins cut_labels (rw (ratio p))"
    "\<forall>c. c \<noteq> cut p \<longrightarrow> c \<noteq> reserves p \<longrightarrow> c \<noteq> votes_cumsum p \<longrightarrow> rw' c = rw c"
proof -
  from assms(1) obtain da1 da2 da3 where
    da1: "da1 = setitem (cut p) (\<lambda>rw. pd_cut cut_bins cut_labels (rw (ratio p))) da" and
    da2: "da2 = sort_values (cut p) da1" and
    da3: "da3 = setitem_values (reserves p) (cumsum (column_values reserve_days da2)) da2" and
    da': "da' = setitem_values (votes_cumsum p) (cumsum (column_values kosher da3)) da3"
    by (rule bin_bloc_cases)
  from assms(2) obtain rw3 w where 3: "(k, rw3) \<in> set (rows da3)" "rw' = rw3(votes_cumsum p := w)"
    unfolding da' by (rule row_of_setitem_values)
  from 3(1) obtain rw2 v where 2: "(k, rw2) \<in> set (rows da2)" "rw3 = rw2(reserves p := v)"
    unfolding da3 by (rule row_of_setitem_values)
  from 2(1) have "(k, rw2) \<in> set (rows da1)" by (simp add: da2 set_sort_values)
  then obtain rw where 1: "(k, rw) \<in> set (rows da)"
    "rw2 = rw(cut p := pd_cut cut_bins cut_labels (rw (ratio p)))"
    unfolding da1 by (auto simp: setitem_def)
  show thesis
  proof (rule that [OF 1(1)])
    show "rw' (cut p) = pd_cut cut_bins cut_labels (rw (ratio p))"
      by (simp add: 3(2) 2(2) 1(2))
    show "\<forall>c. c \<noteq> cut p \<longrightarrow> c \<noteq> reserves p \<longrightarrow> c \<noteq> votes_cumsum p \<longrightarrow> rw' c = rw c"
      by (simp add: 3(2) 2(2) 1(2))
  qed
qed

lemma bin_bloc_columns:
  assumes "bin_bloc p (da, res) = Inr (da', res')"
  shows "set (columns da') = set (columns da) \<union> {cut p, reserves p, votes_cumsum p}"
proof -
  from assms obtain da1 da2 da3 where
    "da1 = setitem (cut p) (\<lambda>rw. pd_cut cut_bins cut_labels (rw (ratio p))) da"
    "da2 = sort_values (cut p) da1"
    "da3 = setitem_values (reserves p) (cumsum (column_values reserve_days da2)) da2"
    "da' = setitem_values (votes_cumsum p) (cumsum (column_values kosher da3)) da3"
    by (rule bin_bloc_cases)
  then show ?thesis by auto
qed

lemma label_095: "95 / 100 \<in> set cut_labels"
proof -
  have "cut_labels ! 19 \<in> set cut_labels"
    by (rule nth_mem) (simp add: length_cut_labels)
  moreover have "cut_labels ! 19 = 95 / 100"
    using nth_cut_labels [of 19] by simp
  ultimately show ?thesis by (simp only:)
qed

lemma map_of_groupby_max:
  "map_of (groupby_max key val df) l =
     (if l \<in> set cut_labels
      then Some (nanmax (map (\<lambda>(k, rw). rw val) (filter (\<lambda>(k, rw). rw key = Some l) (rows df))))
      else None)"
  by (simp add: groupby_max_def map_of_map_restrict restrict_map_def)

lemma loc_groupby_max:
  "\<exists>d. loc (95 / 100) (groupby_max key val df) = Inr d"
  using label_095 by (simp add: loc_def map_of_groupby_max)

lemma bin_bloc_returns:
  assumes "{ratio p, reserve_days, kosher} \<subseteq> set (columns da)"
  shows "\<exists>da' res'. bin_bloc p (da, res) = Inr (da', res')"
proof -
  have "\<exists>d. loc (95 / 100) (groupby_max key val df) = Inr d" for key val df
    by (rule loc_groupby_max)
  then show ?thesis
    using assms unfolding bin_bloc_def prod.case then_do_eq_Inr reading_eq_Inr
    by simp
qed

section \<open>The loop over the two blocs\<close>

lemma script_eq_Inr:
  "script r data = Inr (da2, res2) \<longleftrightarrow>
     (\<exists>da0 da1 res1. analysis_table r data = Inr da0
        \<and> bin_bloc coal (da0, Map.empty) = Inr (da1, res1)
        \<and> bin_bloc opp (da1, res1) = Inr (da2, res2))"
  unfolding script_def then_do_eq_Inr by auto

text \<open>A step of the loop keeps the cells of the columns it does not assign.\<close>

lemma bin_bloc_keeps_column:
  assumes "bin_bloc p (da, res) = Inr (da', res')"
    and "c \<noteq> cut p" "c \<noteq> reserves p" "c \<noteq> votes_cumsum p"
    and "\<forall>(k, rw) \<in> set (rows da). P (rw c)"
  shows "\<forall>(k, rw) \<in> set (rows da'). P (rw c)"
proof (rule ballI)
  fix x assume x: "x \<in> set (rows da')"
  obtain k rw' where kx: "x = (k, rw')" by (cases x)
  from assms(1) x [unfolded kx] obtain rw where rw: "(k, rw) \<in> set (rows da)"
    "rw' (cut p) = pd_cut cut_bins cut_labels (rw (ratio p))"
    "\<forall>c. c \<noteq> cut p \<longrightarrow> c \<noteq> reserves p \<longrightarrow> c \<noteq> votes_cumsum p \<longrightarrow> rw' c = rw c"
    by (rule bin_bloc_row)
  from rw(1) assms(5) have "P (rw c)" by auto
  with rw(3) assms(2-4) show "case x of (k, rw) \<Rightarrow> P (rw c)"
    unfolding kx by simp
qed




lemma analysis_table_reserve_days:
  assumes "analysis_table r data = Inr da"
  shows "\<forall>(k, rw) \<in> set (rows da). positive (rw reserve_days)"
proof (rule ballI)
  fix x assume x: "x \<in> set (rows da)"
  obtain k rw where kx: "x = (k, rw)" by (cases x)
  from assms x [unfolded kx] obtain days :: real where "0 < days" "rw reserve_days = Some days"
    by (rule analysis_row_cases)
  then show "case x of (k, rw) \<Rightarrow> positive (rw reserve_days)"
    unfolding kx by (simp add: positive_iff)
qed








lemma row_in_setitem_values:
  assumes "length vs = length (rows df)" and "(k, rw) \<in> set (rows df)"
  obtains v where "(k, rw(c := v)) \<in> set (rows (setitem_values c vs df))"
proof -
  from assms(2) obtain i where i: "i < length (rows df)" "rows df ! i = (k, rw)"
    by (auto simp: in_set_conv_nth)
  with assms(1) have "rows (setitem_values c vs df) ! i = (k, rw(c := vs ! i))"
    by (simp add: rows_setitem_values)
  moreover from i assms(1) have "i < length (rows (setitem_values c vs df))"
    by (simp add: rows_setitem_values)
  ultimately have "(k, rw(c := vs ! i)) \<in> set (rows (setitem_values c vs df))"
    by (metis nth_mem)
  then show thesis by (rule that)
qed

lemma bin_bloc_row_conv:
  assumes "bin_bloc p (da, res) = Inr (da', res')" and "(k, rw) \<in> set (rows da)"
  obtains rw' where "(k, rw') \<in> set (rows da')"
    "rw' (cut p) = pd_cut cut_bins cut_labels (rw (ratio p))"
    "\<forall>c. c \<noteq> cut p \<longrightarrow> c \<noteq> reserves p \<longrightarrow> c \<noteq> votes_cumsum p \<longrightarrow> rw' c = rw c"
proof -
  from assms(1) obtain da1 da2 da3 where
    da1: "da1 = setitem (cut p) (\<lambda>rw. pd_cut cut_bins cut_labels (rw (ratio p))) da" and
    da2: "da2 = sort_values (cut p) da1" and
    da3: "da3 = setitem_values (reserves p) (cumsum (column_values reserve_days da2)) da2" and
    da': "da' = setitem_values (votes_cumsum p) (cumsum (column_values kosher da3)) da3"
    by (rule bin_bloc_cases)
  define rw1 where "rw1 = rw(cut p := pd_cut cut_bins cut_labels (rw (ratio p)))"
  from assms(2) have "(k, rw1) \<in> set (rows da1)"
    unfolding da1 rw1_def by (force simp: setitem_def)
  then have "(k, rw1) \<in> set (rows da2)" by (simp add: da2 set_sort_values)
  with length_rows_cumsum_column obtain v
    where 3: "(k, rw1(reserves p := v)) \<in> set (rows da3)"
    unfolding da3 by (rule row_in_setitem_values)
  with length_rows_cumsum_column obtain w
    where 4: "(k, rw1(reserves p := v, votes_cumsum p := w)) \<in> set (rows da')"
    unfolding da' by (rule row_in_setitem_values)
  show thesis
    by (rule that [OF 4]) (simp_all add: rw1_def)
qed

lemma pdiv_None [simp]: "pdiv v None = None"
  by (cases v) simp_all

lemma map_of_map_value:
  "map_of (map (\<lambda>(l, v). (l, f v)) col) l = map_option f (map_of col l)"
  by (induction col) auto

text \<open>The values of the new result column, by whether the bin 0.95 has a row.\<close>

lemma bin_bloc_result:
  assumes "bin_bloc p (da, res) = Inr (da', res')"
  shows "res' = res(p \<mapsto> map (\<lambda>(l, v). (l, pdiv v
      (nanmax (map (\<lambda>(k, rw). rw (reserves p))
         (filter (\<lambda>(k, rw). rw (cut p) = Some (95 / 100)) (rows da'))))))
      (groupby_max (cut p) (reserves p) da'))"
proof -
  from assms obtain d where
    d: "loc (95 / 100) (groupby_max (cut p) (reserves p) da') = Inr d" and
    r: "res' = res(p \<mapsto> map (\<lambda>(l, v). (l, pdiv v d)) (groupby_max (cut p) (reserves p) da'))"
    by (rule bin_bloc_cases)
  from d label_095 have "d = nanmax (map (\<lambda>(k, rw). rw (reserves p))
         (filter (\<lambda>(k, rw). rw (cut p) = Some (95 / 100)) (rows da')))"
    by (simp add: loc_def map_of_groupby_max)
  with r show ?thesis by simp
qed

lemma bin_bloc_empty_reference:
  assumes "bin_bloc p (da, res) = Inr (da', res')"
    and "\<forall>(k, rw) \<in> set (rows da'). rw (cut p) \<noteq> Some (95 / 100)"
  shows "res' p = Some (map (\<lambda>l. (l, None)) cut_labels)"
proof -
  from assms(2) have "filter (\<lambda>(k, rw). rw (cut p) = Some (95 / 100)) (rows da') = []"
    by (auto simp: filter_empty_conv)
  then show ?thesis
    unfolding bin_bloc_result [OF assms(1)]
    by (simp add: groupby_max_def split_def comp_def)
qed

lemma bin_bloc_reference:
  assumes "bin_bloc p (da, res) = Inr (da', res')"
    and "\<forall>(k, rw) \<in> set (rows da). positive (rw reserve_days)"
    and "\<exists>(k, rw) \<in> set (rows da'). rw (cut p) = Some (95 / 100)"
  shows "\<exists>col. res' p = Some col \<and> map_of col (95 / 100) = Some (Some 1)"
proof -
  let ?group = "map (\<lambda>(k, rw). rw (reserves p))
         (filter (\<lambda>(k, rw). rw (cut p) = Some (95 / 100)) (rows da'))"
  have "\<forall>(k, rw) \<in> set (rows da'). positive (rw reserve_days)"
    using assms(1) _ _ _ assms(2) by (rule bin_bloc_keeps_column) simp_all
  then have "\<forall>c \<in> set (column_values reserve_days da'). positive c"
    by (auto simp: column_values_def)
  then have "\<forall>c \<in> set (cumsum (column_values reserve_days da')). positive c"
    unfolding cumsum_def by (rule cumsum_from_positive) simp
  then have pos: "\<forall>c \<in> set (column_values (reserves p) da'). positive c"
    by (simp only: bin_bloc_reserves [OF assms(1)])
  have "\<forall>c \<in> set ?group. positive c"
    using pos by (auto simp: column_values_def)
  moreover have "?group \<noteq> []"
    using assms(3) by (auto simp: filter_empty_conv)
  ultimately obtain m where m: "nanmax ?group = Some m" "0 < m"
    using nanmax_positive by blast
  let ?col = "map (\<lambda>(l, v). (l, pdiv v (nanmax ?group))) (groupby_max (cut p) (reserves p) da')"
  have "res' p = Some ?col"
    unfolding bin_bloc_result [OF assms(1)] by simp
  moreover have "map_of ?col (95 / 100) = Some (Some 1)"
    using label_095 m by (simp add: map_of_map_value map_of_groupby_max)
  ultimately show ?thesis by blast
qed


section \<open>The run returns\<close>

lemma bloc_totals_columns:
  assumes "bloc_totals data1 = Inr data2"
  shows "set (columns data2) = insert (total opp) (insert (total coal) (set (columns data1)))"
  using assms by (auto simp: bloc_totals_eq_Inr)

lemma input_columns_parties:
  assumes "set input_columns \<subseteq> set (columns data)"
  shows "votes ` (set coalition \<union> set opposition) \<subseteq> insert (votes saar) (set (columns data))"
  using assms by (auto simp: input_columns_def coalition_def opposition_def)

lemma aggregate_returns:
  assumes "set input_columns \<subseteq> set (columns data0)"
  obtains data where "aggregate r data0 = Inr data"
    "{valid_votes, reserve_days, total coal, total opp} \<subseteq> set (columns data)"
proof -
  obtain data1 data2 where d: "split_votes r data0 = Inr data1" "bloc_totals data1 = Inr data2"
    using input_columns_parties [OF assms] by (rule split_totals_returns)
  have a: "aggregate r data0 = Inr (keep_first data2)"
    using d by (simp add: aggregate_eq_Inr)
  have "{valid_votes, reserve_days} \<subseteq> set (columns data0)"
    using assms by (auto simp: input_columns_def)
  then have "{valid_votes, reserve_days, total coal, total opp} \<subseteq> set (columns (keep_first data2))"
    unfolding keep_first_def
    by (auto simp: bloc_totals_columns [OF d(2)] split_votes_columns [OF d(1)])
  with a show thesis by (rule that)
qed

lemma clean_keeps_checked:
  assumes "clean data = Inr d0"
  shows "set checked \<subseteq> set (columns d0)"
proof -
  from assms have "set checked \<subseteq> set (columns data)" by (simp add: clean_eq_Inr)
  with clean_columns_cases [OF assms] show ?thesis
    by (cases "rows d0 = []") auto
qed

lemma analysis_table_columns:
  assumes "analysis_table r data0 = Inr da"
  shows "{ratio coal, ratio opp, reserve_days, kosher} \<subseteq> set (columns da)"
proof -
  from assms obtain data d0 where c: "clean data = Inr d0" and m: "metrics data d0 = Inr da"
    by (auto simp: analysis_table_eq_Inr)
  from clean_keeps_checked [OF c] have "reserve_days \<in> set (columns d0)"
    by (auto simp: checked_def)
  then show ?thesis unfolding metrics_columns [OF m] by simp
qed

lemma analysis_table_returns:
  assumes "set input_columns \<subseteq> set (columns data0)"
  shows "\<exists>da. analysis_table r data0 = Inr da"
proof -
  from assms obtain data where a: "aggregate r data0 = Inr data"
    and cols: "{valid_votes, reserve_days, total coal, total opp} \<subseteq> set (columns data)"
    by (rule aggregate_returns)
  from cols have "set checked \<subseteq> set (columns data)" by (simp add: checked_def)
  then obtain d0 where c: "clean data = Inr d0" using clean_returns by blast
  from cols clean_keeps_checked [OF c] obtain da where "metrics data d0 = Inr da"
    using metrics_returns [of data d0] by auto
  with a c show ?thesis by (auto simp: analysis_table_eq_Inr)
qed

lemma script_returns:
  assumes "set input_columns \<subseteq> set (columns data)"
  shows "\<exists>da res. script r data = Inr (da, res)"
proof -
  from assms obtain da0 where a: "analysis_table r data = Inr da0"
    using analysis_table_returns by blast
  from analysis_table_columns [OF a]
  have "{ratio coal, reserve_days, kosher} \<subseteq> set (columns da0)" by simp
  then obtain da1 res1 where b1: "bin_bloc coal (da0, Map.empty) = Inr (da1, res1)"
    using bin_bloc_returns by blast
  from analysis_table_columns [OF a]
  have "{ratio opp, reserve_days, kosher} \<subseteq> set (columns da1)"
    unfolding bin_bloc_columns [OF b1] by simp
  then obtain da2 res2 where "bin_bloc opp (da1, res1) = Inr (da2, res2)"
    using bin_bloc_returns by blast
  with a b1 show ?thesis unfolding script_eq_Inr by blast
qed

section \<open>The result table\<close>

text \<open>The bin of every row in the final table is the bin of its ratio in the analysis table.\<close>

lemma script_cases:
  assumes "script r data = Inr (da, res)"
  obtains da0 da1 res1 where
    "analysis_table r data = Inr da0"
    "bin_bloc coal (da0, Map.empty) = Inr (da1, res1)"
    "bin_bloc opp (da1, res1) = Inr (da, res)"
    "res coal = res1 coal"
  using assms unfolding script_eq_Inr
proof (elim exE conjE)
  fix da0 da1 res1
  assume a: "analysis_table r data = Inr da0"
    "bin_bloc coal (da0, Map.empty) = Inr (da1, res1)"
    "bin_bloc opp (da1, res1) = Inr (da, res)"
    and t: "\<And>da0 da1 res1. analysis_table r data = Inr da0 \<Longrightarrow>
      bin_bloc coal (da0, Map.empty) = Inr (da1, res1) \<Longrightarrow>
      bin_bloc opp (da1, res1) = Inr (da, res) \<Longrightarrow> res coal = res1 coal \<Longrightarrow> thesis"
  have "res coal = res1 coal"
    unfolding bin_bloc_result [OF a(3)] by simp
  with a show thesis by (rule t)
qed

lemma script_row:
  assumes "script r data = Inr (da, res)" and "(k, rw') \<in> set (rows da)"
  obtains da0 rw where "analysis_table r data = Inr da0" "(k, rw) \<in> set (rows da0)"
    "\<forall>p. rw' (cut p) = pd_cut cut_bins cut_labels (rw (ratio p))"
proof -
  from assms(1) obtain da0 da1 res1 where a: "analysis_table r data = Inr da0"
    and b1: "bin_bloc coal (da0, Map.empty) = Inr (da1, res1)"
    and b2: "bin_bloc opp (da1, res1) = Inr (da, res)"
    by (rule script_cases)
  from b2 assms(2) obtain rw1 where 1: "(k, rw1) \<in> set (rows da1)"
    "rw' (cut opp) = pd_cut cut_bins cut_labels (rw1 (ratio opp))"
    "\<forall>c. c \<noteq> cut opp \<longrightarrow> c \<noteq> reserves opp \<longrightarrow> c \<noteq> votes_cumsum opp \<longrightarrow> rw' c = rw1 c"
    by (rule bin_bloc_row)
  from b1 1(1) obtain rw where 0: "(k, rw) \<in> set (rows da0)"
    "rw1 (cut coal) = pd_cut cut_bins cut_labels (rw (ratio coal))"
    "\<forall>c. c \<noteq> cut coal \<longrightarrow> c \<noteq> reserves coal \<longrightarrow> c \<noteq> votes_cumsum coal \<longrightarrow> rw1 c = rw c"
    by (rule bin_bloc_row)
  have "\<forall>p. rw' (cut p) = pd_cut cut_bins cut_labels (rw (ratio p))"
  proof
    fix p show "rw' (cut p) = pd_cut cut_bins cut_labels (rw (ratio p))"
      using 0(2,3) 1(2,3) by (cases p) simp_all
  qed
  with a 0(1) show thesis by (rule that)
qed

lemma script_row_conv:
  assumes "script r data = Inr (da, res)" and "analysis_table r data = Inr da0"
    and "(k, rw) \<in> set (rows da0)"
  obtains rw' where "(k, rw') \<in> set (rows da)"
    "\<forall>p. rw' (cut p) = pd_cut cut_bins cut_labels (rw (ratio p))"
proof -
  from assms(1) obtain da0' da1 res1 where
    a': "analysis_table r data = Inr da0'"
    and b1': "bin_bloc coal (da0', Map.empty) = Inr (da1, res1)"
    and b2: "bin_bloc opp (da1, res1) = Inr (da, res)"
    by (rule script_cases)
  from a' assms(2) have "da0' = da0" by simp
  with b1' have b1: "bin_bloc coal (da0, Map.empty) = Inr (da1, res1)" by simp
  from b1 assms(3) obtain rw1 where 1: "(k, rw1) \<in> set (rows da1)"
    "rw1 (cut coal) = pd_cut cut_bins cut_labels (rw (ratio coal))"
    "\<forall>c. c \<noteq> cut coal \<longrightarrow> c \<noteq> reserves coal \<longrightarrow> c \<noteq> votes_cumsum coal \<longrightarrow> rw1 c = rw c"
    by (rule bin_bloc_row_conv)
  from b2 1(1) obtain rw' where 2: "(k, rw') \<in> set (rows da)"
    "rw' (cut opp) = pd_cut cut_bins cut_labels (rw1 (ratio opp))"
    "\<forall>c. c \<noteq> cut opp \<longrightarrow> c \<noteq> reserves opp \<longrightarrow> c \<noteq> votes_cumsum opp \<longrightarrow> rw' c = rw1 c"
    by (rule bin_bloc_row_conv)
  have "\<forall>p. rw' (cut p) = pd_cut cut_bins cut_labels (rw (ratio p))"
  proof
    fix p show "rw' (cut p) = pd_cut cut_bins cut_labels (rw (ratio p))"
      using 1(2,3) 2(2,3) by (cases p) simp_all
  qed
  with 2(1) show thesis by (rule that)
qed

lemma script_result:
  assumes "script r data = Inr (da, res)"
  shows "((\<exists>(k, rw) \<in> set (rows da). rw (cut p) = Some (95 / 100)) \<longrightarrow>
            (\<exists>col. res p = Some col \<and> map_of col (95 / 100) = Some (Some 1)))
       \<and> ((\<forall>(k, rw) \<in> set (rows da). rw (cut p) \<noteq> Some (95 / 100)) \<longrightarrow>
            res p = Some (map (\<lambda>l. (l, None)) cut_labels))"
proof -
  from assms obtain da0 da1 res1 where a: "analysis_table r data = Inr da0"
    and b1: "bin_bloc coal (da0, Map.empty) = Inr (da1, res1)"
    and b2: "bin_bloc opp (da1, res1) = Inr (da, res)"
    and rc: "res coal = res1 coal"
    by (rule script_cases)
  have p0: "\<forall>(k, rw) \<in> set (rows da0). positive (rw reserve_days)"
    using a by (rule analysis_table_reserve_days)
  have p1: "\<forall>(k, rw) \<in> set (rows da1). positive (rw reserve_days)"
    using b1 _ _ _ p0 by (rule bin_bloc_keeps_column) simp_all
  show ?thesis
  proof (cases p)
    case opp
    show ?thesis unfolding opp
    proof (intro conjI impI)
      assume "\<exists>(k, rw) \<in> set (rows da). rw (cut opp) = Some (95 / 100)"
      with b2 p1 show "\<exists>col. res opp = Some col \<and> map_of col (95 / 100) = Some (Some 1)"
        by (rule bin_bloc_reference)
    next
      assume "\<forall>(k, rw) \<in> set (rows da). rw (cut opp) \<noteq> Some (95 / 100)"
      with b2 show "res opp = Some (map (\<lambda>l. (l, None)) cut_labels)"
        by (rule bin_bloc_empty_reference)
    qed
  next
    case coal
    have same: "(\<exists>(k, rw) \<in> set (rows da). rw (cut coal) = Some (95 / 100))
        \<longleftrightarrow> (\<exists>(k, rw) \<in> set (rows da1). rw (cut coal) = Some (95 / 100))"
    proof
      assume "\<exists>(k, rw) \<in> set (rows da). rw (cut coal) = Some (95 / 100)"
      then obtain k rw' where m: "(k, rw') \<in> set (rows da)" "rw' (cut coal) = Some (95 / 100)"
        by auto
      from b2 m(1) obtain rw1 where "(k, rw1) \<in> set (rows da1)"
        "rw' (cut opp) = pd_cut cut_bins cut_labels (rw1 (ratio opp))"
        "\<forall>c. c \<noteq> cut opp \<longrightarrow> c \<noteq> reserves opp \<longrightarrow> c \<noteq> votes_cumsum opp \<longrightarrow> rw' c = rw1 c"
        by (rule bin_bloc_row)
      with m(2) have "(k, rw1) \<in> set (rows da1)" "rw1 (cut coal) = Some (95 / 100)"
        by simp_all
      then show "\<exists>(k, rw) \<in> set (rows da1). rw (cut coal) = Some (95 / 100)"
        by (intro bexI [of _ "(k, rw1)"]) simp_all
    next
      assume "\<exists>(k, rw) \<in> set (rows da1). rw (cut coal) = Some (95 / 100)"
      then obtain k rw1 where m: "(k, rw1) \<in> set (rows da1)" "rw1 (cut coal) = Some (95 / 100)"
        by auto
      from b2 m(1) obtain rw' where "(k, rw') \<in> set (rows da)"
        "rw' (cut opp) = pd_cut cut_bins cut_labels (rw1 (ratio opp))"
        "\<forall>c. c \<noteq> cut opp \<longrightarrow> c \<noteq> reserves opp \<longrightarrow> c \<noteq> votes_cumsum opp \<longrightarrow> rw' c = rw1 c"
        by (rule bin_bloc_row_conv)
      with m(2) have "(k, rw') \<in> set (rows da)" "rw' (cut coal) = Some (95 / 100)"
        by simp_all
      then show "\<exists>(k, rw) \<in> set (rows da). rw (cut coal) = Some (95 / 100)"
        by (intro bexI [of _ "(k, rw')"]) simp_all
    qed
    then have same': "(\<forall>(k, rw) \<in> set (rows da). rw (cut coal) \<noteq> Some (95 / 100))
        \<longleftrightarrow> (\<forall>(k, rw) \<in> set (rows da1). rw (cut coal) \<noteq> Some (95 / 100))"
      by blast
    show ?thesis unfolding coal same same' rc
    proof (intro conjI impI)
      assume "\<exists>(k, rw) \<in> set (rows da1). rw (cut coal) = Some (95 / 100)"
      with b1 p0 show "\<exists>col. res1 coal = Some col \<and> map_of col (95 / 100) = Some (Some 1)"
        by (rule bin_bloc_reference)
    next
      assume "\<forall>(k, rw) \<in> set (rows da1). rw (cut coal) \<noteq> Some (95 / 100)"
      with b1 show "res1 coal = Some (map (\<lambda>l. (l, None)) cut_labels)"
        by (rule bin_bloc_empty_reference)
    qed
  qed
qed


text \<open>
  Claim C7. For each bloc, when the bin labelled 0.95 holds at least one row of the
  analysis table at the end of a run, the bloc's column of the result table has the
  value 1 at the label 0.95.
\<close>

theorem reference_bin_is_one:
  assumes "script split_ratio data = Inr (data_analysis, results)"
    and "\<exists>(k, rw) \<in> set (rows data_analysis). rw (cut party) = Some (95 / 100)"
  shows "\<exists>col. results party = Some col \<and> map_of col (95 / 100) = Some (Some 1)"
  using conjunct1 [OF script_result [OF assms(1), of party]] assms(2) by (rule mp)

text \<open>
  Claim C5, as the code has it. A run on a table with the input columns returns without
  an error, whatever the bins hold; and for a bloc with no row in the bin labelled 0.95
  the divisor of the normalisation is NaN, so every value of the bloc's column of the
  result table is NaN.
\<close>

theorem empty_reference_bin_gives_nan:
  assumes "set input_columns \<subseteq> set (columns data)"
  shows "\<exists>data_analysis results.
           script split_ratio data = Inr (data_analysis, results)
         \<and> (\<forall>party. (\<forall>(k, rw) \<in> set (rows data_analysis). rw (cut party) \<noteq> Some (95 / 100))
               \<longrightarrow> results party = Some (map (\<lambda>l. (l, None)) cut_labels))"
proof -
  from assms obtain da res where s: "script split_ratio data = Inr (da, res)"
    using script_returns by blast
  have "\<forall>party. (\<forall>(k, rw) \<in> set (rows da). rw (cut party) \<noteq> Some (95 / 100))
               \<longrightarrow> res party = Some (map (\<lambda>l. (l, None)) cut_labels)"
    using script_result [OF s] by blast
  with s show ?thesis by blast
qed

lemma two_localities_ratios:
  "\<exists>da. analysis_table 0 two_localities = Inr da
     \<and> column_values (ratio coal) da = [Some (4 / 5), Some (1 / 5)]
     \<and> column_values (ratio opp) da = [Some (1 / 5), Some (4 / 5)]"
  by (simp add: table_defs two_localities_def)

lemma landslides_ratios:
  "\<exists>da. analysis_table 0 landslides = Inr da \<and> index da = [''A'', ''B'']
     \<and> column_values (ratio coal) da = [Some (97 / 100), Some (3 / 100)]
     \<and> column_values (ratio opp) da = [Some (3 / 100), Some (97 / 100)]"
  by (simp add: table_defs landslides_def)

lemma input_columns_examples:
  "set input_columns \<subseteq> set (columns two_localities)"
  "set input_columns \<subseteq> set (columns landslides)"
  by (simp_all add: two_localities_def landslides_def)

lemma pd_cut_examples:
  "pd_cut cut_bins cut_labels (Some (4 / 5)) = Some (15 / 20)"
  "pd_cut cut_bins cut_labels (Some (1 / 5)) = Some (3 / 20)"
  "pd_cut cut_bins cut_labels (Some (97 / 100)) = Some (19 / 20)"
  "pd_cut cut_bins cut_labels (Some (3 / 100)) = Some (0 / 20)"
  using pd_cut_in_bin [of 15 "4 / 5"] pd_cut_in_bin [of 3 "1 / 5"]
    pd_cut_in_bin [of 19 "97 / 100"] pd_cut_in_bin [of 0 "3 / 100"]
  by simp_all

text \<open>In the run on the two localities of the specification's scenario no row is in the bin 0.95.\<close>

lemma two_localities_run:
  obtains da res where "script 0 two_localities = Inr (da, res)"
    "\<forall>p. \<forall>(k, rw) \<in> set (rows da). rw (cut p) \<noteq> Some (95 / 100)"
proof -
  obtain da res where s: "script 0 two_localities = Inr (da, res)"
    using script_returns [OF input_columns_examples(1)] by blast
  have "\<forall>p. \<forall>(k, rw) \<in> set (rows da). rw (cut p) \<noteq> Some (95 / 100)"
  proof (intro allI ballI)
    fix p x assume x: "x \<in> set (rows da)"
    obtain k rw' where kx: "x = (k, rw')" by (cases x)
    from s x [unfolded kx] obtain da0 rw where a: "analysis_table 0 two_localities = Inr da0"
      and m: "(k, rw) \<in> set (rows da0)"
      and c: "\<forall>p. rw' (cut p) = pd_cut cut_bins cut_labels (rw (ratio p))"
      by (rule script_row)
    from two_localities_ratios a have
      "column_values (ratio coal) da0 = [Some (4 / 5), Some (1 / 5)]"
      "column_values (ratio opp) da0 = [Some (1 / 5), Some (4 / 5)]"
      by auto
    with m have "rw (ratio p) = Some (4 / 5) \<or> rw (ratio p) = Some (1 / 5)"
      by (cases p) (force simp: column_values_def)+
    then have "rw' (cut p) \<noteq> Some (95 / 100)"
      using c pd_cut_examples(1,2) by auto
    then show "case x of (k, rw) \<Rightarrow> rw (cut p) \<noteq> Some (95 / 100)"
      unfolding kx by simp
  qed
  with s show thesis by (rule that)
qed

theorem empty_reference_bin_gives_nan_witness:
  "set input_columns \<subseteq> set (columns two_localities)
   \<and> (\<exists>da res. script 0 two_localities = Inr (da, res)
        \<and> (\<forall>(k, rw) \<in> set (rows da). rw (cut coal) \<noteq> Some (95 / 100))
        \<and> res coal = Some (map (\<lambda>l. (l, None)) cut_labels))"
proof -
  from empty_reference_bin_gives_nan [OF input_columns_examples(1), of 0]
  obtain da res where s: "script 0 two_localities = Inr (da, res)"
    and n: "\<forall>party. (\<forall>(k, rw) \<in> set (rows da). rw (cut party) \<noteq> Some (95 / 100))
               \<longrightarrow> res party = Some (map (\<lambda>l. (l, None)) cut_labels)"
    by blast
  obtain da' res' where s': "script 0 two_localities = Inr (da', res')"
    and e: "\<forall>p. \<forall>(k, rw) \<in> set (rows da'). rw (cut p) \<noteq> Some (95 / 100)"
    by (rule two_localities_run)
  from s s' have "da' = da" by simp
  with e have e': "\<forall>(k, rw) \<in> set (rows da). rw (cut coal) \<noteq> Some (95 / 100)" by simp
  with n have "res coal = Some (map (\<lambda>l. (l, None)) cut_labels)" by simp
  with s e' input_columns_examples(1) show ?thesis by blast
qed

text \<open>
  Claim C5 as stated fails: the two localities of the specification's scenario have ratios 0.8 and
  0.2, no row falls in the bin labelled 0.95 for either bloc, and the run returns a
  result table of 20 NaN values per bloc instead of an error.
\<close>

theorem empty_bin_no_error_counterexample:
  "map_sum id (result_values coal) (script 0 two_localities) = Inr (replicate 20 None)
   \<and> map_sum id (result_values opp) (script 0 two_localities) = Inr (replicate 20 None)"
proof -
  obtain da res where s: "script 0 two_localities = Inr (da, res)"
    and e: "\<forall>p. \<forall>(k, rw) \<in> set (rows da). rw (cut p) \<noteq> Some (95 / 100)"
    by (rule two_localities_run)
  have "res p = Some (map (\<lambda>l. (l, None)) cut_labels)" for p
    using conjunct2 [OF script_result [OF s, of p]] e by simp
  then have "result_values p (da, res) = replicate 20 None" for p
    by (simp add: result_values_def comp_def map_replicate_const length_cut_labels)
  with s show ?thesis by simp
qed


text \<open>In the run on the two landslide localities each bloc has a row in the bin 0.95.\<close>

lemma landslides_run:
  obtains da res where "script 0 landslides = Inr (da, res)"
    "\<exists>(k, rw) \<in> set (rows da). rw (cut coal) = Some (95 / 100)"
    "\<exists>(k, rw) \<in> set (rows da). rw (cut opp) = Some (95 / 100)"
proof -
  obtain da res where s: "script 0 landslides = Inr (da, res)"
    using script_returns [OF input_columns_examples(2)] by blast
  from landslides_ratios obtain da0 where a: "analysis_table 0 landslides = Inr da0"
    and i: "index da0 = [''A'', ''B'']"
    and c: "column_values (ratio coal) da0 = [Some (97 / 100), Some (3 / 100)]"
    and p: "column_values (ratio opp) da0 = [Some (3 / 100), Some (97 / 100)]"
    by blast
  from i obtain ra rb where r: "rows da0 = [(''A'', ra), (''B'', rb)]"
    by (auto simp: index_def)
  from c p have v: "ra (ratio coal) = Some (97 / 100)" "rb (ratio opp) = Some (97 / 100)"
    by (simp_all add: column_values_def r)
  have "(''A'', ra) \<in> set (rows da0)" by (simp add: r)
  with s a obtain ra' where A: "(''A'', ra') \<in> set (rows da)"
    "\<forall>p. ra' (cut p) = pd_cut cut_bins cut_labels (ra (ratio p))"
    by (rule script_row_conv)
  have "(''B'', rb) \<in> set (rows da0)" by (simp add: r)
  with s a obtain rb' where B: "(''B'', rb') \<in> set (rows da)"
    "\<forall>p. rb' (cut p) = pd_cut cut_bins cut_labels (rb (ratio p))"
    by (rule script_row_conv)
  from A(2) v(1) have "ra' (cut coal) = Some (95 / 100)"
    using pd_cut_examples(3) by simp
  with A(1) have 1: "\<exists>(k, rw) \<in> set (rows da). rw (cut coal) = Some (95 / 100)"
    by (intro bexI [of _ "(''A'', ra')"]) simp_all
  from B(2) v(2) have "rb' (cut opp) = Some (95 / 100)"
    using pd_cut_examples(3) by simp
  with B(1) have 2: "\<exists>(k, rw) \<in> set (rows da). rw (cut opp) = Some (95 / 100)"
    by (intro bexI [of _ "(''B'', rb')"]) simp_all
  from s 1 2 show thesis by (rule that)
qed

theorem reference_bin_is_one_witness:
  "\<exists>da res. script 0 landslides = Inr (da, res)
     \<and> (\<exists>(k, rw) \<in> set (rows da). rw (cut coal) = Some (95 / 100))
     \<and> (\<exists>(k, rw) \<in> set (rows da). rw (cut opp) = Some (95 / 100))
     \<and> (\<exists>col. res coal = Some col \<and> map_of col (95 / 100) = Some (Some 1))
     \<and> (\<exists>col. res opp = Some col \<and> map_of col (95 / 100) = Some (Some 1))"
proof -
  obtain da res where s: "script 0 landslides = Inr (da, res)"
    and c: "\<exists>(k, rw) \<in> set (rows da). rw (cut coal) = Some (95 / 100)"
    and p: "\<exists>(k, rw) \<in> set (rows da). rw (cut opp) = Some (95 / 100)"
    by (rule landslides_run)
  from reference_bin_is_one [OF s c] reference_bin_is_one [OF s p] s c p
  show ?thesis by (intro exI [of _ da] exI [of _ res] conjI)
qed


end
